theory Spec2Isabelle
  imports Main "HOL-Library.Multiset" "HOL-Library.AList"
begin

section \<open>Data model (types.ts)\<close>

text \<open>
  Strings are lists of 8-bit characters: the model covers class strings whose code units
  are below 256. \<open>GroupKey\<close> is the closed union of ten string literals.
\<close>

datatype GroupKey =
    Layout | Spacing | Sizing | Typography | Colors
  | Borders | Effects | Interactivity | Accessibility | Misc

datatype error = TypeError | UnmodelledPrefix

section \<open>Regular expressions\<close>

text \<open>
  The fragment of JavaScript regular expressions that index.ts uses, as syntax trees:
  literals, \<open>.\<close>, character classes \<open>[...]\<close> and \<open>[^...]\<close>, the anchors \<open>^\<close> and \<open>$\<close>
  (no multiline flag), sequence, alternation, \<open>?\<close>, \<open>*\<close>, \<open>+\<close> and the negative
  lookahead \<open>(?!...)\<close>. A \<open>regexp\<close> is a pattern with its \<open>i\<close> flag; none of the
  expressions of index.ts has the \<open>g\<close> or \<open>y\<close> flag, so matching always starts at index 0
  and has no state.
\<close>

datatype regex =
    Lit string
  | Dot
  | OneOf "char list"
  | NoneOf "char list"
  | Bol
  | Eol
  | Seq "regex list"
  | Alt "regex list"
  | Opt regex
  | Star regex
  | Plus regex
  | NotAhead regex

record regexp =
  source :: regex
  ignoreCase :: bool

text \<open>
  Canonicalize of the ECMAScript specification (non-Unicode mode) on code units below 256:
  with the \<open>i\<close> flag a character is compared by its upper-case form when that is a single
  code unit. The letters \<open>a-z\<close> (0x61-0x7A) and the Latin-1 letters 0xE0-0xFE (0xF7 apart)
  have one below 256, 0x20 lower: bit 5 is cleared. (\<open>Char\<close> lists the bits from the least
  significant one.)
\<close>

fun upper :: "char \<Rightarrow> char" where
  "upper (Char b0 b1 b2 b3 b4 b5 b6 b7) =
     (if b5 \<and> b6 \<and>
         ((\<not> b7 \<and> (b0 \<or> b1 \<or> b2 \<or> b3 \<or> b4) \<and> \<not> (b4 \<and> b3 \<and> (b2 \<or> (b1 \<and> b0)))) \<or>
          (b7 \<and> \<not> (b0 \<and> b1 \<and> b2 \<and> b3 \<and> b4) \<and> \<not> (b0 \<and> b1 \<and> b2 \<and> \<not> b3 \<and> b4)))
      then Char b0 b1 b2 b3 b4 False b6 b7
      else Char b0 b1 b2 b3 b4 b5 b6 b7)"

definition canonicalize :: "bool \<Rightarrow> char \<Rightarrow> char" where
  "canonicalize ic ch = (if ic then upper ch else ch)"

definition is_line_terminator :: "char \<Rightarrow> bool" where
  "is_line_terminator ch = (ch = CHR 0x0A \<or> ch = CHR 0x0D)"

text \<open>
  A position is the number of characters read together with the rest of the input.
  \<open>ends ic r p\<close> lists the positions at which a match of \<open>r\<close> that starts at \<open>p\<close> can
  end, in the order in which a backtracking matcher tries them (alternatives left to
  right, quantifiers greedy). An iteration of \<open>*\<close> or \<open>+\<close> that consumes nothing is
  rejected, as in ECMAScript; every other iteration consumes a character, so the length of
  the rest bounds the iterations.
\<close>

type_synonym pos = "nat \<times> string"

fun lit_ends :: "bool \<Rightarrow> string \<Rightarrow> pos \<Rightarrow> pos list" where
  "lit_ends ic [] p = [p]"
| "lit_ends ic (c # w) (i, []) = []"
| "lit_ends ic (c # w) (i, d # rest) =
     (if canonicalize ic d = canonicalize ic c then lit_ends ic w (Suc i, rest) else [])"

fun char_ends :: "(char \<Rightarrow> bool) \<Rightarrow> pos \<Rightarrow> pos list" where
  "char_ends ok (i, []) = []"
| "char_ends ok (i, d # rest) = (if ok d then [(Suc i, rest)] else [])"

function (sequential) ends :: "bool \<Rightarrow> regex \<Rightarrow> pos \<Rightarrow> pos list"
  and ends_seq :: "bool \<Rightarrow> regex list \<Rightarrow> pos \<Rightarrow> pos list"
  and ends_alt :: "bool \<Rightarrow> regex list \<Rightarrow> pos \<Rightarrow> pos list"
  and ends_star :: "bool \<Rightarrow> regex \<Rightarrow> nat \<Rightarrow> pos \<Rightarrow> pos list"
where
  "ends ic (Lit w) p = lit_ends ic w p"
| "ends ic Dot p = char_ends (\<lambda>d. \<not> is_line_terminator d) p"
| "ends ic (OneOf cs) p =
     char_ends (\<lambda>d. canonicalize ic d \<in> set (map (canonicalize ic) cs)) p"
| "ends ic (NoneOf cs) p =
     char_ends (\<lambda>d. canonicalize ic d \<notin> set (map (canonicalize ic) cs)) p"
| "ends ic Bol p = (if fst p = 0 then [p] else [])"
| "ends ic Eol p = (if snd p = [] then [p] else [])"
| "ends ic (Seq rs) p = ends_seq ic rs p"
| "ends ic (Alt rs) p = ends_alt ic rs p"
| "ends ic (Opt r) p = ends ic r p @ [p]"
| "ends ic (Star r) p = ends_star ic r (length (snd p)) p"
| "ends ic (Plus r) p =
     concat (map (\<lambda>q. ends_star ic r (length (snd q)) q) (ends ic r p))"
| "ends ic (NotAhead r) p = (if ends ic r p = [] then [p] else [])"
| "ends_seq ic [] p = [p]"
| "ends_seq ic (r # rs) p = concat (map (ends_seq ic rs) (ends ic r p))"
| "ends_alt ic [] p = []"
| "ends_alt ic (r # rs) p = ends ic r p @ ends_alt ic rs p"
| "ends_star ic r 0 p = [p]"
| "ends_star ic r (Suc n) p =
     concat (map (\<lambda>q. if fst p < fst q then ends_star ic r n q else []) (ends ic r p)) @ [p]"
  by pat_completeness auto
termination
  by (relation "inv_image (less_than <*lex*> less_than)
        (\<lambda>x. case x of
            Inl (Inl (ic, r, p)) \<Rightarrow> (size r, 0)
          | Inl (Inr (ic, rs, p)) \<Rightarrow> (size_list size rs, 0)
          | Inr (Inl (ic, rs, p)) \<Rightarrow> (size_list size rs, 0)
          | Inr (Inr (ic, r, n, p)) \<Rightarrow> (size r, Suc n))") auto

text \<open>
  RegExpBuiltinExec without \<open>g\<close>/\<open>y\<close>: the start positions 0, 1, ..., length s are tried
  in turn and the first match found is returned; the result kept is \<open>m[0]\<close>, the matched
  substring. \<open>RegExp.prototype.test\<close> is "exec does not return null";
  \<open>String.prototype.match\<close> with such an expression is exec.
\<close>

fun exec_from :: "regexp \<Rightarrow> pos \<Rightarrow> string option" where
  "exec_from re (i, rest) =
     (case ends (ignoreCase re) (source re) (i, rest) of
        q # qs \<Rightarrow> Some (take (fst q - i) rest)
      | [] \<Rightarrow> (case rest of [] \<Rightarrow> None | c # cs \<Rightarrow> exec_from re (Suc i, cs)))"

definition regex_exec :: "regexp \<Rightarrow> string \<Rightarrow> string option" where
  "regex_exec re s = exec_from re (0, s)"

definition regex_test :: "regexp \<Rightarrow> string \<Rightarrow> bool" where
  "regex_test re s = (regex_exec re s \<noteq> None)"

definition lits :: "string list \<Rightarrow> regex" where
  "lits ws = Alt (map Lit ws)"

definition anchored :: "regex \<Rightarrow> regexp" where
  "anchored r = \<lparr>source = Seq [Bol, r], ignoreCase = False\<rparr>"

section \<open>Configuration (types.ts)\<close>

datatype custom_utility = CustomString string | CustomRegExp regexp

record tailwind_options =
  prefix :: "string option"
  variants :: "string list option"
  customUtilities :: "custom_utility list option"

record FormatOptions =
  groupOrder :: "GroupKey list option"
  splitPerGroup :: "bool option"
  strictTailwindOrder :: "bool option"
  tailwind :: "tailwind_options option"

definition no_options :: FormatOptions where
  "no_options = \<lparr>groupOrder = None, splitPerGroup = None, strictTailwindOrder = None,
     tailwind = None\<rparr>"

definition tw_prefix :: "tailwind_options option \<Rightarrow> string option" where
  "tw_prefix tw = (case tw of None \<Rightarrow> None | Some t \<Rightarrow> prefix t)"

definition tw_variants :: "tailwind_options option \<Rightarrow> string list option" where
  "tw_variants tw = (case tw of None \<Rightarrow> None | Some t \<Rightarrow> variants t)"

definition tw_customUtilities :: "tailwind_options option \<Rightarrow> custom_utility list option" where
  "tw_customUtilities tw = (case tw of None \<Rightarrow> None | Some t \<Rightarrow> customUtilities t)"

section \<open>Defaults (index.ts)\<close>

definition DEFAULT_ORDER :: "GroupKey list" where
  "DEFAULT_ORDER = [Layout, Spacing, Sizing, Typography, Colors, Borders, Effects,
     Interactivity, Accessibility, Misc]"

definition DEFAULT_VARIANTS :: "string list" where
  "DEFAULT_VARIANTS =
    [''sm'', ''md'', ''lg'', ''xl'', ''2xl'',
     ''dark'', ''light'', ''portrait'', ''landscape'', ''motion-safe'', ''motion-reduce'',
     ''hover'', ''focus'', ''focus-visible'', ''focus-within'', ''active'', ''visited'',
     ''disabled'',
     ''first'', ''last'', ''only'', ''odd'', ''even'',
     ''open'', ''checked'', ''required'', ''invalid'',
     ''rtl'', ''ltr'',
     ''group-hover'', ''group-focus'', ''peer-hover'', ''peer-focus'']"

section \<open>Utils (index.ts)\<close>

text \<open>
  \<open>escapeRegex\<close> puts a backslash before every syntax character of its argument, so the
  pattern text it returns matches the argument literally: as a syntax tree, a literal.
\<close>

definition escapeRegex :: "string \<Rightarrow> regex" where
  "escapeRegex s = Lit s"

text \<open>
  \<open>makeVariantRegex\<close>: the expression \<open>^(?:\[[^\]]+\]|(?:v1|v2|...)):\<close> with the \<open>i\<close> flag.
\<close>

definition makeVariantRegex :: "string list option \<Rightarrow> regexp" where
  "makeVariantRegex vs =
     (let baseList = (case vs of None \<Rightarrow> DEFAULT_VARIANTS
                      | Some l \<Rightarrow> if l \<noteq> [] then l else DEFAULT_VARIANTS);
          arb = Seq [Lit ''['', Plus (NoneOf '']''), Lit '']''];
          list = Alt (map escapeRegex baseList);
          union = Alt [arb, list]
      in \<lparr>source = Seq [Bol, union, Lit '':''], ignoreCase = True\<rparr>)"

text \<open>\<open>/\s/\<close> on code units below 256; \<open>String.prototype.trim\<close> removes the same characters.\<close>

definition is_space :: "char \<Rightarrow> bool" where
  "is_space ch = (ch \<in> set [CHR 0x09, CHR 0x0A, CHR 0x0B, CHR 0x0C, CHR 0x0D, CHR '' '', CHR 0xA0])"

text \<open>
  \<open>splitTokens\<close>: the loop's variables \<open>out\<close>, \<open>cur\<close> and \<open>depth\<close> are the state; one
  step of the loop reads one character.
\<close>

type_synonym split_state = "string list \<times> string \<times> nat"

definition push_cur :: "string list \<Rightarrow> string \<Rightarrow> string list" where
  "push_cur out cur = (if cur \<noteq> [] then out @ [cur] else out)"

definition depth_step :: "char \<Rightarrow> nat \<Rightarrow> nat" where
  "depth_step ch depth =
     (let depth1 = (if ch = CHR ''['' then depth + 1 else depth)
      in if ch = CHR '']'' \<and> depth1 > 0 then depth1 - 1 else depth1)"

definition split_step :: "char \<Rightarrow> split_state \<Rightarrow> split_state" where
  "split_step ch st =
     (case st of (out, cur, depth) \<Rightarrow>
        let depth2 = depth_step ch depth
        in if is_space ch \<and> depth2 = 0
           then (push_cur out cur, [], depth2)
           else (out, cur @ [ch], depth2))"

definition splitTokens :: "string \<Rightarrow> string list" where
  "splitTokens input =
     (case fold split_step input ([], [], 0) of
        (out, cur, depth) \<Rightarrow> filter (\<lambda>t. t \<noteq> []) (push_cur out cur))"

text \<open>
  \<open>stripVariantsWith\<close>: the \<open>while\<close> loop over \<open>(v, rest, vs)\<close>. For an arbitrary
  expression the loop need not end (a match may be empty), so not returning is \<open>None\<close>.
\<close>

partial_function (option) strip_loop ::
  "regexp \<Rightarrow> string \<Rightarrow> string \<Rightarrow> string list \<Rightarrow> (string \<times> string \<times> string list) option" where
  "strip_loop partsRe v rest vs =
     (case regex_exec partsRe rest of
        None \<Rightarrow> Some (v, rest, vs)
      | Some raw \<Rightarrow>
          strip_loop partsRe (v @ raw) (drop (length raw) rest) (vs @ [butlast raw]))"

declare strip_loop.simps [code]

definition stripVariantsWith ::
  "regexp \<Rightarrow> string \<Rightarrow> (string \<times> string \<times> string list) option" where
  "stripVariantsWith partsRe token = strip_loop partsRe [] token []"

text \<open>
  \<open>withPrefix\<close>: \<open>re.source.replace(/^\^/, `^${px}`)\<close> puts the escaped prefix after the
  start anchor. \<open>String.prototype.replace\<close> expands \<open>$&\<close>, \<open>$`\<close> and \<open>$'\<close> in its
  replacement text, so for a prefix that contains one of these the new pattern is not
  "the prefix, literally" (for the prefix \<open>$`\<close> it is not even a pattern, and the RegExp
  constructor throws). The model does not follow the pattern compiler there: such a prefix
  gives \<open>UnmodelledPrefix\<close>.
\<close>

fun has_replacement_pattern :: "string \<Rightarrow> bool" where
  "has_replacement_pattern (a # b # cs) =
     ((a = CHR ''$'' \<and> (b = CHR ''&'' \<or> b = CHR 0x60 \<or> b = CHR 0x27))
      \<or> has_replacement_pattern (b # cs))"
| "has_replacement_pattern cs = False"

definition inject_prefix :: "regex \<Rightarrow> regex \<Rightarrow> regex" where
  "inject_prefix px r = (case r of Seq (Bol # rs) \<Rightarrow> Seq (Bol # px # rs) | _ \<Rightarrow> r)"

definition withPrefix :: "string option \<Rightarrow> regexp \<Rightarrow> error + regexp" where
  "withPrefix p re =
     (case p of
        None \<Rightarrow> Inr re
      | Some pre \<Rightarrow>
          if pre = [] then Inr re
          else if has_replacement_pattern pre then Inl UnmodelledPrefix
          else Inr (re\<lparr>source := inject_prefix (escapeRegex pre) (source re)\<rparr>))"

section \<open>Classification (index.ts)\<close>

definition re_layout :: regexp where
  "re_layout = anchored (lits [''container'', ''block'', ''inline'', ''flex'', ''grid'', ''table'',
     ''flow-'', ''contents'', ''col-'', ''row-'', ''justify-'', ''items-'', ''content-'',
     ''place-'', ''order-'', ''gap-''])"

definition re_spacing :: regexp where
  "re_spacing = anchored (Alt [
     Seq [Lit ''p'', Opt (OneOf ''trblxy''), Lit ''-'', Plus Dot],
     Seq [Lit ''m'', Opt (OneOf ''trblxy''), Lit ''-'', Plus Dot],
     Seq [Lit ''space-'', OneOf ''xy'', Lit ''-'']])"

definition re_sizing :: regexp where
  "re_sizing = anchored (lits [''w-'', ''h-'', ''min-w-'', ''max-w-'', ''min-h-'', ''max-h-'',
     ''aspect-''])"

definition re_typography :: regexp where
  "re_typography = anchored (Alt [
     Lit ''font-'',
     Seq [Lit ''text-'', lits [''xs'', ''sm'', ''base'', ''lg'', ''xl'', ''['']],
     Lit ''leading-'', Lit ''tracking-'', Lit ''list-'', Lit ''truncate'', Lit ''line-clamp-''])"

definition re_colors :: regexp where
  "re_colors = anchored (Alt [
     Lit ''bg-'',
     Seq [Lit ''text-'', NotAhead (lits [''xs'', ''sm'', ''base'', ''lg'', ''xl''])],
     Lit ''from-'', Lit ''via-'', Lit ''to-'', Lit ''decoration-'', Lit ''underline'',
     Lit ''ring-'', Lit ''shadow-'', Lit ''opacity-''])"

definition re_borders :: regexp where
  "re_borders = anchored (lits [''border'', ''rounded'', ''divide-'', ''outline''])"

definition re_effects :: regexp where
  "re_effects = anchored (lits [''shadow-'', ''blur'', ''backdrop-'', ''transform'', ''scale-'',
     ''rotate-'', ''translate-'', ''skew-''])"

definition re_interactivity :: regexp where
  "re_interactivity = anchored (lits [''cursor-'', ''select-'', ''pointer-events-'', ''accent-'',
     ''appearance-'', ''scroll-'', ''transition'', ''duration-'', ''ease-'', ''animate-''])"

definition re_accessibility :: regexp where
  "re_accessibility = anchored (lits [''sr-only'', ''not-sr-only'', ''aria-'', ''data-''])"

text \<open>The chain of \<open>if (re(/.../).test(base)) return ...\<close>, in the source's order.\<close>

definition RULES :: "(regexp \<times> GroupKey) list" where
  "RULES = [(re_layout, Layout), (re_spacing, Spacing), (re_sizing, Sizing),
     (re_typography, Typography), (re_colors, Colors), (re_borders, Borders),
     (re_effects, Effects), (re_interactivity, Interactivity),
     (re_accessibility, Accessibility)]"

fun apply_rules :: "string option \<Rightarrow> string \<Rightarrow> (regexp \<times> GroupKey) list \<Rightarrow> error + GroupKey" where
  "apply_rules p base [] = Inr Misc"
| "apply_rules p base ((r, g) # rules) =
     (case withPrefix p r of
        Inl e \<Rightarrow> Inl e
      | Inr r' \<Rightarrow> if regex_test r' base then Inr g else apply_rules p base rules)"

definition starts_with :: "string \<Rightarrow> string \<Rightarrow> bool" where
  "starts_with s pat = (take (length pat) s = pat)"

definition custom_matches :: "string \<Rightarrow> custom_utility \<Rightarrow> bool" where
  "custom_matches base pat =
     (case pat of
        CustomString p \<Rightarrow> starts_with base p
      | CustomRegExp r \<Rightarrow> regex_test r base)"

definition classifyWithConfig :: "string \<Rightarrow> tailwind_options option \<Rightarrow> error + GroupKey" where
  "classifyWithConfig base tw =
     (if (case tw_customUtilities tw of
            None \<Rightarrow> False
          | Some pats \<Rightarrow> list_ex (custom_matches base) pats)
      then Inr Misc
      else apply_rules (tw_prefix tw) base RULES)"

section \<open>Ordering scores (index.ts)\<close>

definition ORDER_HINTS :: "regexp list" where
  "ORDER_HINTS = [
     \<lparr>source = Seq [Bol, Lit ''container'', Eol], ignoreCase = False\<rparr>,
     \<lparr>source = Seq [Bol, Alt [Lit ''block'', Seq [Lit ''inline'', Star Dot], Lit ''contents''], Eol],
      ignoreCase = False\<rparr>,
     \<lparr>source = Seq [Bol, lits [''flex'', ''grid'', ''table''], Eol], ignoreCase = False\<rparr>,
     \<lparr>source = Alt [Seq [Bol, Lit ''col-'', Star Dot], Seq [Lit ''row-'', Star Dot, Eol]],
      ignoreCase = False\<rparr>,
     \<lparr>source = Seq [Bol, Lit ''gap-'', Star Dot, Eol], ignoreCase = False\<rparr>,
     \<lparr>source = Alt [Seq [Bol, Lit ''justify-'', Star Dot], Seq [Lit ''items-'', Star Dot],
        Seq [Lit ''content-'', Star Dot], Seq [Lit ''place-'', Star Dot],
        Seq [Lit ''order-'', Star Dot, Eol]], ignoreCase = False\<rparr>,
     \<lparr>source = Seq [Bol, Lit ''p'', Star Dot], ignoreCase = False\<rparr>,
     \<lparr>source = Seq [Bol, Lit ''m'', Star Dot], ignoreCase = False\<rparr>,
     \<lparr>source = Seq [Bol, Lit ''space-'', Star Dot], ignoreCase = False\<rparr>,
     anchored (lits [''w-'', ''h-'', ''min-'', ''max-'', ''aspect-'']),
     re_typography,
     re_colors,
     re_borders,
     anchored (lits [''transform'', ''scale-'', ''rotate-'', ''translate-'', ''skew-'', ''blur'',
        ''backdrop-'']),
     re_interactivity,
     re_accessibility]"

text \<open>Scores are JavaScript numbers, here integers.\<close>

fun first_hint :: "regexp list \<Rightarrow> int \<Rightarrow> string \<Rightarrow> int option" where
  "first_hint [] i base = None"
| "first_hint (h # hs) i base = (if regex_test h base then Some i else first_hint hs (i + 1) base)"

definition baseScore :: "string \<Rightarrow> int" where
  "baseScore base =
     (case first_hint ORDER_HINTS 0 base of
        Some i \<Rightarrow> i
      | None \<Rightarrow> int (length ORDER_HINTS) + 1)"

fun indexOf :: "'a list \<Rightarrow> 'a \<Rightarrow> int option" where
  "indexOf [] v = None"
| "indexOf (x # xs) v = (if x = v then Some 0 else map_option (\<lambda>i. i + 1) (indexOf xs v))"

fun first_ranked :: "string list \<Rightarrow> string list \<Rightarrow> int option" where
  "first_ranked [] ord = None"
| "first_ranked (v # vs) ord =
     (case indexOf ord v of Some i \<Rightarrow> Some i | None \<Rightarrow> first_ranked vs ord)"

definition variantPriorityScore :: "string list \<Rightarrow> string list option \<Rightarrow> int" where
  "variantPriorityScore vs ord =
     (case ord of
        None \<Rightarrow> 9999
      | Some l \<Rightarrow>
          if l = [] \<or> vs = [] then 9999
          else (case first_ranked vs l of Some i \<Rightarrow> i | None \<Rightarrow> 9999))"

section \<open>Public API (index.ts)\<close>

record parsed =
  token :: string
  base :: string
  variants' :: "string list"
  group :: GroupKey
  idx :: nat
  sBase :: int
  sVar :: int

datatype formatted = Flat string | Chunks "string list"

text \<open>
  The callback of \<open>tokens.map((t, i) => ...)\<close>. \<open>None\<close>: the variant loop does not return;
  \<open>Some (Inl e)\<close>: the classification throws.
\<close>

definition parse_token ::
  "regexp \<Rightarrow> tailwind_options option \<Rightarrow> string \<Rightarrow> nat \<Rightarrow> (error + parsed) option" where
  "parse_token variantRe tw t i =
     (case stripVariantsWith variantRe t of
        None \<Rightarrow> None
      | Some (v, b, vs) \<Rightarrow>
          Some (case classifyWithConfig b tw of
                  Inl e \<Rightarrow> Inl e
                | Inr g \<Rightarrow> Inr \<lparr>token = t, base = b, variants' = vs, group = g, idx = i,
                            sBase = baseScore b,
                            sVar = variantPriorityScore vs (tw_variants tw)\<rparr>))"

fun parse_tokens ::
  "regexp \<Rightarrow> tailwind_options option \<Rightarrow> nat \<Rightarrow> string list \<Rightarrow> (error + parsed list) option" where
  "parse_tokens variantRe tw i [] = Some (Inr [])"
| "parse_tokens variantRe tw i (t # ts) =
     (case parse_token variantRe tw t i of
        None \<Rightarrow> None
      | Some (Inl e) \<Rightarrow> Some (Inl e)
      | Some (Inr p) \<Rightarrow>
          (case parse_tokens variantRe tw (Suc i) ts of
             None \<Rightarrow> None
           | Some (Inl e) \<Rightarrow> Some (Inl e)
           | Some (Inr ps) \<Rightarrow> Some (Inr (p # ps))))"

text \<open>
  \<open>buckets\<close> is a JavaScript \<open>Map\<close>: an association list in insertion order, \<open>set\<close> is
  \<open>AList.update\<close>, \<open>get\<close> is \<open>map_of\<close>. Reading a property of \<open>undefined\<close> (the \<open>!\<close> of
  TypeScript checks nothing at run time) throws TypeError.
\<close>

type_synonym buckets = "(GroupKey \<times> string list) list"

definition init_buckets :: "GroupKey list \<Rightarrow> buckets" where
  "init_buckets ord =
     (let b = fold (\<lambda>k m. AList.update k [] m) ord []
      in if map_of b Misc = None then AList.update Misc [] b else b)"

fun distribute :: "parsed list \<Rightarrow> buckets \<Rightarrow> error + buckets" where
  "distribute [] b = Inr b"
| "distribute (item # items) b =
     (case map_of b (group item) of
        None \<Rightarrow> Inl TypeError
      | Some arr \<Rightarrow> distribute items (AList.update (group item) (arr @ [token item]) b))"

text \<open>
  The comparator \<open>a.sVar - b.sVar || a.sBase - b.sBase || a.idx - b.idx\<close>, and
  \<open>Array.prototype.sort\<close>: a stable sort, here by insertion.
\<close>

definition compare_items :: "parsed \<Rightarrow> parsed \<Rightarrow> int" where
  "compare_items a b =
     (if sVar a - sVar b \<noteq> 0 then sVar a - sVar b
      else if sBase a - sBase b \<noteq> 0 then sBase a - sBase b
      else int (idx a) - int (idx b))"

fun insert_by :: "('a \<Rightarrow> 'a \<Rightarrow> int) \<Rightarrow> 'a \<Rightarrow> 'a list \<Rightarrow> 'a list" where
  "insert_by cmp x [] = [x]"
| "insert_by cmp x (y # ys) = (if cmp x y \<le> 0 then x # y # ys else y # insert_by cmp x ys)"

definition sort_by :: "('a \<Rightarrow> 'a \<Rightarrow> int) \<Rightarrow> 'a list \<Rightarrow> 'a list" where
  "sort_by cmp xs = foldr (insert_by cmp) xs []"

fun find_items :: "parsed list \<Rightarrow> string list \<Rightarrow> error + parsed list" where
  "find_items ps [] = Inr []"
| "find_items ps (t # ts) =
     (case List.find (\<lambda>p. token p = t) ps of
        None \<Rightarrow> Inl TypeError
      | Some p \<Rightarrow> (case find_items ps ts of Inl e \<Rightarrow> Inl e | Inr items \<Rightarrow> Inr (p # items)))"

fun sort_buckets :: "parsed list \<Rightarrow> buckets \<Rightarrow> error + buckets" where
  "sort_buckets ps [] = Inr []"
| "sort_buckets ps ((k, arr) # rest) =
     (case find_items ps arr of
        Inl e \<Rightarrow> Inl e
      | Inr items \<Rightarrow>
          (case sort_buckets ps rest of
             Inl e \<Rightarrow> Inl e
           | Inr rest' \<Rightarrow> Inr ((k, map token (sort_by compare_items items)) # rest')))"

fun get_buckets :: "buckets \<Rightarrow> GroupKey list \<Rightarrow> error + string list list" where
  "get_buckets b [] = Inr []"
| "get_buckets b (k # ks) =
     (case map_of b k of
        None \<Rightarrow> Inl TypeError
      | Some g \<Rightarrow> (case get_buckets b ks of Inl e \<Rightarrow> Inl e | Inr gs \<Rightarrow> Inr (g # gs)))"

fun join :: "string \<Rightarrow> string list \<Rightarrow> string" where
  "join sep [] = []"
| "join sep [x] = x"
| "join sep (x # y # ys) = x @ sep @ join sep (y # ys)"

definition trim :: "string \<Rightarrow> string" where
  "trim s = rev (dropWhile is_space (rev (dropWhile is_space s)))"

definition render :: "bool option \<Rightarrow> string list list \<Rightarrow> formatted" where
  "render split gs =
     (if split = Some True
      then Chunks (map (join '' '') (filter (\<lambda>g. g \<noteq> []) gs))
      else Flat (trim (join '' '' (concat gs))))"

text \<open>
  \<open>sorted_groups\<close> is the part that both return statements of \<open>formatClasses\<close> share:
  the sorted buckets read in group order, \<open>order.map((k) => buckets.get(k)!)\<close>
  (\<open>flatMap\<close> is \<open>map\<close> followed by concatenation).
\<close>

definition sorted_groups :: "string \<Rightarrow> FormatOptions \<Rightarrow> (error + string list list) option" where
  "sorted_groups input opts =
     (let ord = (case groupOrder opts of Some l \<Rightarrow> l | None \<Rightarrow> DEFAULT_ORDER);
          tw = tailwind opts;
          variantRe = makeVariantRegex (tw_variants tw);
          tokens = splitTokens input;
          buckets0 = init_buckets ord
      in case parse_tokens variantRe tw 0 tokens of
           None \<Rightarrow> None
         | Some (Inl e) \<Rightarrow> Some (Inl e)
         | Some (Inr ps) \<Rightarrow>
             Some (case distribute ps buckets0 of
                     Inl e \<Rightarrow> Inl e
                   | Inr buckets1 \<Rightarrow>
                       (case sort_buckets ps buckets1 of
                          Inl e \<Rightarrow> Inl e
                        | Inr buckets2 \<Rightarrow> get_buckets buckets2 ord)))"

definition formatClasses :: "string \<Rightarrow> FormatOptions \<Rightarrow> (error + formatted) option" where
  "formatClasses input opts =
     (case sorted_groups input opts of
        None \<Rightarrow> None
      | Some (Inl e) \<Rightarrow> Some (Inl e)
      | Some (Inr gs) \<Rightarrow> Some (Inr (render (splitPerGroup opts) gs)))"

definition tokenize :: "string \<Rightarrow> string list" where
  "tokenize input = splitTokens input"

text \<open>
  \<open>categorize\<close>: \<open>map\<close> has all ten keys from the start, so it is a total function on
  \<open>GroupKey\<close>; \<open>ordered\<close> is an object, its keys in insertion order.
\<close>

definition classify_token ::
  "regexp \<Rightarrow> tailwind_options option \<Rightarrow> string \<Rightarrow> (error + GroupKey) option" where
  "classify_token variantRe tw t =
     (case stripVariantsWith variantRe t of
        None \<Rightarrow> None
      | Some (v, b, vs) \<Rightarrow> Some (classifyWithConfig b tw))"

fun categorize_loop ::
  "regexp \<Rightarrow> tailwind_options option \<Rightarrow> string list \<Rightarrow> (GroupKey \<Rightarrow> string list) \<Rightarrow>
     (error + (GroupKey \<Rightarrow> string list)) option" where
  "categorize_loop variantRe tw [] m = Some (Inr m)"
| "categorize_loop variantRe tw (t # ts) m =
     (case classify_token variantRe tw t of
        None \<Rightarrow> None
      | Some (Inl e) \<Rightarrow> Some (Inl e)
      | Some (Inr g) \<Rightarrow> categorize_loop variantRe tw ts (m(g := m g @ [t])))"

definition categorize :: "string \<Rightarrow> FormatOptions \<Rightarrow> (error + buckets) option" where
  "categorize input opts =
     (let ord = (case groupOrder opts of Some l \<Rightarrow> l | None \<Rightarrow> DEFAULT_ORDER);
          variantRe = makeVariantRegex (tw_variants (tailwind opts))
      in case categorize_loop variantRe (tailwind opts) (splitTokens input) (\<lambda>k. []) of
           None \<Rightarrow> None
         | Some (Inl e) \<Rightarrow> Some (Inl e)
         | Some (Inr m) \<Rightarrow>
             Some (Inr (let ordered = fold (\<lambda>k al. AList.update k (m k) al) ord []
                        in if map_of ordered Misc = None then AList.update Misc (m Misc) ordered
                           else ordered)))"

section \<open>Notions used in the properties\<close>

text \<open>
  A bracketed segment is \<open>[\<close>, a text whose brackets are well nested, and the matching
  \<open>]\<close>. \<open>nested n w\<close>: with \<open>n\<close> brackets open, \<open>w\<close> closes only open brackets and leaves
  none open.
\<close>

fun nested :: "nat \<Rightarrow> string \<Rightarrow> bool" where
  "nested n [] = (n = 0)"
| "nested n (c # cs) =
     (if c = CHR ''['' then nested (Suc n) cs
      else if c = CHR '']'' then 0 < n \<and> nested (n - 1) cs
      else nested n cs)"


text \<open>
  \<open>advances p q\<close>: the position \<open>q\<close> is \<open>p\<close> after reading some more characters.
\<close>

definition advances :: "pos \<Rightarrow> pos \<Rightarrow> bool" where
  "advances p q = (\<exists>k\<le>length (snd p). q = (fst p + k, drop k (snd p)))"

text \<open>
  The effective group order \<open>opts.groupOrder ?? DEFAULT_ORDER\<close>, and the group that
  \<open>formatClasses\<close> and \<open>categorize\<close> give a token under the options: its variants are
  stripped with the expression made from \<open>tailwind.variants\<close> and the base is classified.
\<close>

definition order_of :: "FormatOptions \<Rightarrow> GroupKey list" where
  "order_of opts = (case groupOrder opts of Some l \<Rightarrow> l | None \<Rightarrow> DEFAULT_ORDER)"

definition group_of :: "FormatOptions \<Rightarrow> string \<Rightarrow> (error + GroupKey) option" where
  "group_of opts t =
     classify_token (makeVariantRegex (tw_variants (tailwind opts))) (tailwind opts) t"

text \<open>
  The bracket depth at which \<open>splitTokens\<close> ends its scan of the input: 0 when every
  \<open>[\<close> has been closed. \<open>scan d t\<close> is the depth after reading \<open>t\<close> from depth \<open>d\<close> when
  no character of \<open>t\<close> is a token boundary; \<open>whole_token t\<close>: read on its own, \<open>t\<close> is one
  token and leaves no bracket open.
\<close>

definition final_depth :: "string \<Rightarrow> nat" where
  "final_depth s = (case fold split_step s ([], [], 0) of (out, cur, depth) \<Rightarrow> depth)"

fun scan :: "nat \<Rightarrow> string \<Rightarrow> nat option" where
  "scan d [] = Some d"
| "scan d (c # cs) =
     (if is_space c \<and> depth_step c d = 0 then None else scan (depth_step c d) cs)"

definition whole_token :: "string \<Rightarrow> bool" where
  "whole_token t = (t \<noteq> [] \<and> scan 0 t = Some 0)"


fun first_index :: "'a list \<Rightarrow> 'a \<Rightarrow> nat" where
  "first_index [] x = 0"
| "first_index (y # ys) x = (if x = y then 0 else Suc (first_index ys x))"

section \<open>The tokenizer keeps bracketed segments whole\<close>

lemma not_space_brackets [simp]: "\<not> is_space CHR ''[''" "\<not> is_space CHR '']''"
  by (simp_all add: is_space_def)

lemma fold_split_inside:
  "nested n w \<Longrightarrow> 0 < d \<Longrightarrow> fold split_step w (out, cur, d + n) = (out, cur @ w, d)"
proof (induction w arbitrary: n cur)
  case Nil
  then show ?case by simp
next
  case (Cons c w)
  show ?case
  proof (cases "c = CHR ''[''")
    case True
    with Cons.prems have "nested (Suc n) w" by simp
    from Cons.IH[OF this Cons.prems(2), of "cur @ [c]"] True show ?thesis
      by (simp add: split_step_def depth_step_def)
  next
    case False
    show ?thesis
    proof (cases "c = CHR '']''")
      case True
      with Cons.prems have n: "0 < n" "nested (n - 1) w" by simp_all
      from Cons.IH[OF n(2) Cons.prems(2), of "cur @ [c]"] True n(1) Cons.prems(2) show ?thesis
        by (simp add: split_step_def depth_step_def)
    next
      case False
      with \<open>c \<noteq> CHR ''[''\<close> Cons.prems have "nested n w" by simp
      from Cons.IH[OF this Cons.prems(2), of "cur @ [c]"] False \<open>c \<noteq> CHR ''[''\<close> Cons.prems(2)
      show ?thesis
        by (simp add: split_step_def depth_step_def)
    qed
  qed
qed

lemma fold_split_segment:
  assumes "nested 0 w"
  shows "fold split_step (''['' @ w @ '']'') (out, cur, d) = (out, cur @ ''['' @ w @ '']'', d)"
proof -
  have "fold split_step w (out, cur @ ''['', Suc d + 0) = (out, (cur @ ''['') @ w, Suc d)"
    using assms by (intro fold_split_inside) simp_all
  then show ?thesis
    by (simp add: split_step_def depth_step_def)
qed

lemma push_cur_append: "push_cur (a @ b) cur = a @ push_cur b cur"
  by (simp add: push_cur_def)

lemma fold_split_out:
  "fold split_step v (a @ b, cur, d) =
     (case fold split_step v (b, cur, d) of (out, c, d') \<Rightarrow> (a @ out, c, d'))"
proof (induction v arbitrary: b cur d)
  case Nil
  then show ?case by simp
next
  case (Cons ch v)
  show ?case
    using Cons.IH[of "push_cur b cur" "[]"] Cons.IH[of b "cur @ [ch]"]
    by (simp add: split_step_def Let_def push_cur_append)
qed

lemma fold_split_pending:
  "cur \<noteq> [] \<Longrightarrow>
   \<exists>b ts. (case fold split_step v (out, cur, d) of (out', c', d') \<Rightarrow> push_cur out' c')
            = out @ [cur @ b] @ ts"
proof (induction v arbitrary: cur d)
  case Nil
  then show ?case by (simp add: push_cur_def)
next
  case (Cons ch v)
  show ?case
  proof (cases "is_space ch \<and> depth_step ch d = 0")
    case True
    obtain o' c' d' where f: "fold split_step v ([], [], depth_step ch d) = (o', c', d')"
      by (cases "fold split_step v ([], [], depth_step ch d)") auto
    have "fold split_step v ((out @ [cur]) @ [], [], depth_step ch d) = ((out @ [cur]) @ o', c', d')"
      unfolding fold_split_out f by simp
    with True Cons.prems have
      "(case fold split_step (ch # v) (out, cur, d) of (out', c', d') \<Rightarrow> push_cur out' c')
         = out @ [cur @ []] @ push_cur o' c'"
      by (simp add: split_step_def push_cur_def)
    then show ?thesis by blast
  next
    case False
    from Cons.IH[of "cur @ [ch]" "depth_step ch d"] obtain b ts where
      "(case fold split_step v (out, cur @ [ch], depth_step ch d) of (out', c', d') \<Rightarrow> push_cur out' c')
         = out @ [(cur @ [ch]) @ b] @ ts" by auto
    with False have
      "(case fold split_step (ch # v) (out, cur, d) of (out', c', d') \<Rightarrow> push_cur out' c')
         = out @ [cur @ (ch # b)] @ ts"
      by (auto simp add: split_step_def Let_def)
    then show ?thesis by blast
  qed
qed

text \<open>
  C6 (bracket atomicity). Wherever a bracketed segment \<open>[w]\<close> stands in the input, with
  any text \<open>u\<close> before it and \<open>v\<close> after it, one token contains the whole segment: no
  character between the bracket and its partner is a token boundary. The tokens before
  that token are those of \<open>u\<close>, the last of them (if \<open>u\<close> does not end in a boundary) being
  the beginning \<open>a\<close> of the token that holds the segment.
\<close>

theorem tokenize_bracket_atomic:
  assumes "nested 0 w"
  shows "\<exists>ts a b ts'.
           tokenize (u @ ''['' @ w @ '']'' @ v) = ts @ [a @ ''['' @ w @ '']'' @ b] @ ts' \<and>
           tokenize u = ts @ (if a = [] then [] else [a])"
proof -
  obtain ou cu du where fu: "fold split_step u ([], [], 0) = (ou, cu, du)"
    by (cases "fold split_step u ([], [], 0)") auto
  let ?seg = "''['' @ w @ '']''"
  have fseg: "fold split_step (u @ ?seg) ([], [], 0) = (ou, cu @ ?seg, du)"
    using fold_split_segment[OF assms, of ou cu du] fu by simp
  have "cu @ ?seg \<noteq> []" by simp
  from fold_split_pending[OF this, of v ou du] obtain b ts where
    p: "(case fold split_step v (ou, cu @ ?seg, du) of (out', c', d') \<Rightarrow> push_cur out' c')
          = ou @ [(cu @ ?seg) @ b] @ ts" by blast
  have "fold split_step (u @ ?seg @ v) ([], [], 0) = fold split_step v (ou, cu @ ?seg, du)"
    using fseg by (simp del: append_assoc add: append_assoc[symmetric]) 
  then have "tokenize (u @ ?seg @ v) = filter (\<lambda>t. t \<noteq> []) (ou @ [(cu @ ?seg) @ b] @ ts)"
    using p by (simp add: tokenize_def splitTokens_def split: prod.splits)
  then have 1: "tokenize (u @ ?seg @ v) =
      filter (\<lambda>t. t \<noteq> []) ou @ [cu @ ?seg @ b] @ filter (\<lambda>t. t \<noteq> []) ts"
    by simp
  have 2: "tokenize u = filter (\<lambda>t. t \<noteq> []) ou @ (if cu = [] then [] else [cu])"
    using fu by (simp add: tokenize_def splitTokens_def push_cur_def)
  have t1: "tokenize (u @ ''['' @ w @ '']'' @ v) =
      filter (\<lambda>t. t \<noteq> []) ou @ [cu @ ''['' @ w @ '']'' @ b] @ filter (\<lambda>t. t \<noteq> []) ts"
    using 1 by simp
  from t1 2 show ?thesis by blast
qed

theorem tokenize_bracket_atomic_witness:
  "nested 0 ''a b'' \<and>
   (\<exists>ts a b ts'.
      tokenize (''bg-'' @ ''['' @ ''a b'' @ '']'' @ '' p-2'') = ts @ [a @ ''['' @ ''a b'' @ '']'' @ b] @ ts' \<and>
      tokenize ''bg-'' = ts @ (if a = [] then [] else [a]))"
proof -
  have h: "nested 0 ''a b''" by simp
  from tokenize_bracket_atomic[OF h, of "''bg-''" "'' p-2''"] h show ?thesis by blast
qed

section \<open>Matches of the variant expression; the variant loop returns\<close>

lemma advances_refl [simp]: "advances p p"
  unfolding advances_def by (intro exI[of _ 0]) simp

lemma advances_trans: "advances p q \<Longrightarrow> advances q r \<Longrightarrow> advances p r"
  unfolding advances_def
  apply (elim exE conjE)
  subgoal for k l
    by (intro exI[of _ "k + l"]) (simp add: add.commute)
  done

lemma advances_step: "advances (Suc i, rest) q \<Longrightarrow> advances (i, d # rest) q"
  unfolding advances_def
  apply (elim exE conjE)
  subgoal for k
    by (intro exI[of _ "Suc k"]) simp
  done

lemma lit_ends_advances: "q \<in> set (lit_ends ic w p) \<Longrightarrow> advances p q"
  by (induction ic w p rule: lit_ends.induct) (auto split: if_splits intro: advances_step)

lemma char_ends_advances: "q \<in> set (char_ends ok p) \<Longrightarrow> advances p q"
  by (induction ok p rule: char_ends.induct) (auto split: if_splits intro: advances_step)

lemma ends_advances:
  "q \<in> set (ends ic r p) \<Longrightarrow> advances p q"
  "q \<in> set (ends_seq ic rs p) \<Longrightarrow> advances p q"
  "q \<in> set (ends_alt ic rs p) \<Longrightarrow> advances p q"
  "q \<in> set (ends_star ic r n p) \<Longrightarrow> advances p q"
  by (induction ic r p and ic rs p and ic rs p and ic r n p arbitrary: q and q and q and q
       rule: ends_ends_seq_ends_alt_ends_star.induct)
     (auto split: if_splits intro: lit_ends_advances char_ends_advances,
      (blast intro: advances_trans)+)

lemma upper_colon: "upper d = upper CHR '':'' \<Longrightarrow> d = CHR '':''"
  by (cases d) (auto split: if_splits)

lemma seq_bol_lit_ends:
  "q \<in> set (ends ic (Seq [Bol, U, Lit w]) p) \<Longrightarrow>
     fst p = 0 \<and> (\<exists>p'\<in>set (ends ic U p). q \<in> set (lit_ends ic w p'))"
  by (auto split: if_splits)

lemma variant_source: "\<exists>U. source (makeVariantRegex vs) = Seq [Bol, U, Lit '':'']"
  by (simp add: makeVariantRegex_def Let_def)

lemma variant_ignoreCase [simp]: "ignoreCase (makeVariantRegex vs)"
  by (simp add: makeVariantRegex_def Let_def)

lemma variant_ends:
  assumes "q \<in> set (ends True (source (makeVariantRegex vs)) (i, rest))"
  shows "i = 0 \<and> (\<exists>k. k < length rest \<and> rest ! k = CHR '':'' \<and> fst q = Suc k)"
proof -
  from variant_source obtain U where U: "source (makeVariantRegex vs) = Seq [Bol, U, Lit '':'']" ..
  from assms have "q \<in> set (ends True (Seq [Bol, U, Lit '':'']) (i, rest))" unfolding U .
  from seq_bol_lit_ends[OF this] have i: "i = 0"
    and ex: "\<exists>p'\<in>set (ends True U (i, rest)). q \<in> set (lit_ends True '':'' p')"
    by auto
  from ex obtain p' where
    p': "p' \<in> set (ends True U (i, rest))" "q \<in> set (lit_ends True '':'' p')" ..
  from ends_advances(1)[OF p'(1)] obtain k where k: "k \<le> length rest" "p' = (i + k, drop k rest)"
    by (auto simp: advances_def)
  from p'(2) k obtain d r where d: "drop k rest = d # r" "upper d = upper CHR '':''" "q = (Suc (i + k), r)"
    by (cases "drop k rest") (auto simp: canonicalize_def split: if_splits)
  from d(1) k(1) have kl: "k < length rest" by (cases "k = length rest") auto
  from d(1) kl have "rest ! k = d"
    by (metis nth_via_drop)
  with kl i d upper_colon show ?thesis by auto
qed

declare exec_from.simps [simp del]

lemma variant_exec_from_later: "exec_from (makeVariantRegex vs) (Suc i, rest) = None"
proof (induction rest arbitrary: i)
  case Nil
  have "ends True (source (makeVariantRegex vs)) (Suc i, []) = []"
    using variant_ends[of _ vs "Suc i" "[]"] by (cases "ends True (source (makeVariantRegex vs)) (Suc i, [])") auto
  then show ?case by (simp add: exec_from.simps)
next
  case (Cons c rest)
  have "ends True (source (makeVariantRegex vs)) (Suc i, c # rest) = []"
    using variant_ends[of _ vs "Suc i" "c # rest"]
    by (cases "ends True (source (makeVariantRegex vs)) (Suc i, c # rest)") auto
  then show ?case using Cons.IH by (simp add: exec_from.simps)
qed

lemma variant_exec:
  assumes "regex_exec (makeVariantRegex vs) rest = Some raw"
  shows "raw \<noteq> [] \<and> last raw = CHR '':'' \<and> take (length raw) rest = raw \<and>
         length (drop (length raw) rest) < length rest"
proof -
  have ex: "exec_from (makeVariantRegex vs) (0, rest) = Some raw"
    using assms by (simp add: regex_exec_def)
  show ?thesis
  proof (cases "ends True (source (makeVariantRegex vs)) (0, rest)")
    case Nil
    then have "exec_from (makeVariantRegex vs) (0, rest) = None"
      by (cases rest) (simp_all add: exec_from.simps[of _ 0] variant_exec_from_later)
    with ex show ?thesis by simp
  next
    case (Cons q qs)
    with ex have raw: "raw = take (fst q) rest"
      by (simp add: exec_from.simps[of _ 0])
    from Cons have "q \<in> set (ends True (source (makeVariantRegex vs)) (0, rest))" by simp
    from variant_ends[OF this] obtain k where k: "k < length rest" "rest ! k = CHR '':''" "fst q = Suc k"
      by auto
    from k raw have "length raw = Suc k" by simp
    moreover from k raw have "last raw = CHR '':''"
      by (simp add: take_Suc_conv_app_nth)
    ultimately show ?thesis using raw k by auto
  qed
qed

lemma strip_loop_returns: "\<exists>r. strip_loop (makeVariantRegex vs) v rest acc = Some r"
proof (induction "length rest" arbitrary: v rest acc rule: less_induct)
  case less
  show ?case
  proof (cases "regex_exec (makeVariantRegex vs) rest")
    case None
    then show ?thesis by (subst strip_loop.simps) simp
  next
    case (Some raw)
    from variant_exec[OF Some] have "length (drop (length raw) rest) < length rest" by simp
    from less[OF this] Some show ?thesis by (subst strip_loop.simps) simp
  qed
qed

lemma stripVariantsWith_returns: "\<exists>r. stripVariantsWith (makeVariantRegex vs) t = Some r"
  unfolding stripVariantsWith_def by (rule strip_loop_returns)

lemma parse_token_returns: "\<exists>r. parse_token (makeVariantRegex vs) tw t i = Some r"
proof -
  from stripVariantsWith_returns[of vs t] obtain v b ws where
    "stripVariantsWith (makeVariantRegex vs) t = Some (v, b, ws)" by (metis prod_cases3)
  then show ?thesis by (simp add: parse_token_def)
qed

lemma parse_tokens_returns: "\<exists>r. parse_tokens (makeVariantRegex vs) tw i ts = Some r"
proof (induction ts arbitrary: i)
  case Nil
  then show ?case by simp
next
  case (Cons t ts)
  from parse_token_returns[of vs tw t i] obtain r where
    r: "parse_token (makeVariantRegex vs) tw t i = Some r" ..
  from Cons[of "Suc i"] obtain r' where r': "parse_tokens (makeVariantRegex vs) tw (Suc i) ts = Some r'" ..
  show ?case using r r' by (cases r; cases r') simp_all
qed

lemma sorted_groups_returns: "\<exists>r. sorted_groups s opts = Some r"
proof -
  from parse_tokens_returns obtain r where
    "parse_tokens (makeVariantRegex (tw_variants (tailwind opts))) (tailwind opts) 0 (splitTokens s) = Some r" ..
  then show ?thesis by (cases r) (simp_all add: sorted_groups_def Let_def)
qed

lemma formatClasses_returns: "\<exists>r. formatClasses s opts = Some r"
proof -
  from sorted_groups_returns obtain r where "sorted_groups s opts = Some r" ..
  then show ?thesis by (cases r) (simp_all add: formatClasses_def)
qed

lemma classify_token_returns: "\<exists>r. classify_token (makeVariantRegex vs) tw t = Some r"
proof -
  from stripVariantsWith_returns[of vs t] obtain v b ws where
    "stripVariantsWith (makeVariantRegex vs) t = Some (v, b, ws)" by (metis prod_cases3)
  then show ?thesis by (simp add: classify_token_def)
qed

lemma categorize_loop_returns: "\<exists>r. categorize_loop (makeVariantRegex vs) tw ts m = Some r"
proof (induction ts arbitrary: m)
  case Nil
  then show ?case by simp
next
  case (Cons t ts)
  from classify_token_returns[of vs tw t] obtain r where
    r: "classify_token (makeVariantRegex vs) tw t = Some r" ..
  show ?case using r Cons by (cases r) simp_all
qed

lemma categorize_returns: "\<exists>r. categorize s opts = Some r"
proof -
  from categorize_loop_returns obtain r where
    "categorize_loop (makeVariantRegex (tw_variants (tailwind opts))) (tailwind opts) (splitTokens s) (\<lambda>k. []) = Some r" ..
  then show ?thesis by (cases r) (simp_all add: categorize_def Let_def)
qed

text \<open>
  C10 (termination of variant stripping). For the expression that \<open>makeVariantRegex\<close>
  builds from any list of variants (none, empty, or with degenerate entries), a match
  ends in \<open>:\<close>, so it is not empty and the rest of the token gets strictly shorter; the
  loop of \<open>stripVariantsWith\<close> therefore returns on every token, and \<open>formatClasses\<close>
  and \<open>categorize\<close> return (a value or an exception) on every input and configuration.
\<close>

theorem variant_stripping_terminates:
  "(regex_exec (makeVariantRegex vs) rest = Some raw \<longrightarrow>
      raw \<noteq> [] \<and> last raw = CHR '':'' \<and> length (drop (length raw) rest) < length rest) \<and>
   (\<exists>r. stripVariantsWith (makeVariantRegex vs) t = Some r) \<and>
   (\<exists>r. formatClasses s opts = Some r) \<and>
   (\<exists>r. categorize s opts = Some r)"
  using variant_exec[of vs rest raw] stripVariantsWith_returns[of vs t]
    formatClasses_returns[of s opts] categorize_returns[of s opts]
  by blast

theorem variant_stripping_terminates_witness:
  "regex_exec (makeVariantRegex None) ''sm:p-2'' = Some ''sm:'' \<and>
   ''sm:'' \<noteq> [] \<and> last ''sm:'' = CHR '':'' \<and>
   length (drop (length ''sm:'') ''sm:p-2'') < length ''sm:p-2'' \<and>
   (\<exists>r. stripVariantsWith (makeVariantRegex None) ''sm:p-2'' = Some r) \<and>
   (\<exists>r. formatClasses ''sm:p-2'' no_options = Some r) \<and>
   (\<exists>r. categorize ''sm:p-2'' no_options = Some r)"
proof -
  have e: "regex_exec (makeVariantRegex None) ''sm:p-2'' = Some ''sm:''"
    by code_simp
  from variant_stripping_terminates[of None "''sm:p-2''" "''sm:''" "''sm:p-2''" "''sm:p-2''" no_options] e
  show ?thesis by blast
qed

text \<open>
  C8 (the prefix does not reach variant matching). Changing \<open>tailwind.prefix\<close> to any
  value, or adding a \<open>tailwind\<close> object that only has a prefix, leaves the result of the
  variant splitter (variant text, base, variants) on every token unchanged.
\<close>

theorem variants_ignore_prefix:
  "stripVariantsWith (makeVariantRegex (tw_variants (Some (t\<lparr>prefix := p\<rparr>)))) tok =
     stripVariantsWith (makeVariantRegex (tw_variants (Some t))) tok \<and>
   stripVariantsWith
       (makeVariantRegex (tw_variants (Some \<lparr>prefix = p, variants = None, customUtilities = None\<rparr>))) tok =
     stripVariantsWith (makeVariantRegex (tw_variants None)) tok"
  by (simp add: tw_variants_def)



text \<open>
  C2 (no failure modes): a group order that omits the group of some token. Only the \<open>misc\<close>
  bucket is added when it is missing; the token \<open>flex\<close> is classified \<open>layout\<close>,
  \<open>buckets.get("layout")\<close> is \<open>undefined\<close>, and \<open>formatClasses\<close> throws TypeError.
  \<open>categorize\<close>, which starts from all ten groups, returns on the same input.
\<close>

theorem formatClasses_missing_bucket:
  "formatClasses ''flex'' (no_options\<lparr>groupOrder := Some [Misc]\<rparr>) = Some (Inl TypeError) \<and>
   group_of (no_options\<lparr>groupOrder := Some [Misc]\<rparr>) ''flex'' = Some (Inr Layout) \<and>
   init_buckets [Misc] = [(Misc, [])] \<and>
   categorize ''flex'' (no_options\<lparr>groupOrder := Some [Misc]\<rparr>) = Some (Inr [(Misc, [])])"
  by code_simp

text \<open>
  C4 (order within a bucket): a token that occurs twice. The three parsed tokens have the
  same variant score and the same base score and the indices 0, 1, 2, so by original index
  the order of the input, \<open>flex grid flex\<close>, is the sorted one; but the second \<open>flex\<close> is
  looked up by its text (\<open>parsed.find\<close>), gets the record of the first, and moves before
  \<open>grid\<close>.
\<close>

theorem formatClasses_duplicate_tokens:
  "formatClasses ''flex grid flex'' no_options = Some (Inr (Flat ''flex flex grid'')) \<and>
   parse_tokens (makeVariantRegex None) None 0 (tokenize ''flex grid flex'') =
     Some (Inr [\<lparr>token = ''flex'', base = ''flex'', variants' = [], group = Layout, idx = 0,
                  sBase = 2, sVar = 9999\<rparr>,
                \<lparr>token = ''grid'', base = ''grid'', variants' = [], group = Layout, idx = 1,
                  sBase = 2, sVar = 9999\<rparr>,
                \<lparr>token = ''flex'', base = ''flex'', variants' = [], group = Layout, idx = 2,
                  sBase = 2, sVar = 9999\<rparr>])"
  by code_simp

section \<open>Buckets\<close>

lemma parse_token_char:
  "parse_token re tw t i = Some (Inr p) \<Longrightarrow>
     token p = t \<and> idx p = i \<and> classify_token re tw t = Some (Inr (group p))"
  by (auto simp: parse_token_def classify_token_def split: option.splits sum.splits prod.splits)

lemma parse_tokens_char:
  "parse_tokens re tw i ts = Some (Inr ps) \<Longrightarrow>
     map token ps = ts \<and> (\<forall>p\<in>set ps. classify_token re tw (token p) = Some (Inr (group p)))"
proof (induction ts arbitrary: i ps)
  case Nil
  then show ?case by simp
next
  case (Cons t ts)
  from Cons.prems obtain p ps' where
    p: "parse_token re tw t i = Some (Inr p)" and
    ps': "parse_tokens re tw (Suc i) ts = Some (Inr ps')" and
    eq: "ps = p # ps'"
    by (auto split: option.splits sum.splits)
  from Cons.IH[OF ps'] parse_token_char[OF p] eq show ?case by simp
qed

lemma fold_update_map_of:
  "map_of (fold (\<lambda>k m. AList.update k (f k) m) ord al) k =
     (if k \<in> set ord then Some (f k) else map_of al k)"
  by (induction ord arbitrary: al) (auto simp: update_conv')

lemma init_buckets_map_of:
  "map_of (init_buckets ord) k = (if k \<in> set ord \<or> k = Misc then Some [] else None)"
  by (auto simp: init_buckets_def Let_def fold_update_map_of update_conv')

lemma distribute_char:
  "distribute ps b = Inr b' \<Longrightarrow>
     map_of b' k =
       (case map_of b k of None \<Rightarrow> None
        | Some arr \<Rightarrow> Some (arr @ map token (filter (\<lambda>p. group p = k) ps)))"
proof (induction ps arbitrary: b)
  case Nil
  then show ?case by (simp split: option.splits)
next
  case (Cons item items)
  from Cons.prems obtain arr where
    arr: "map_of b (group item) = Some arr" and
    d: "distribute items (AList.update (group item) (arr @ [token item]) b) = Inr b'"
    by (auto split: option.splits)
  from Cons.IH[OF d] arr show ?case
    by (auto simp: update_conv' split: option.splits)
qed

lemma distribute_keys:
  "distribute ps b = Inr b' \<Longrightarrow> p \<in> set ps \<Longrightarrow> map_of b (group p) \<noteq> None"
proof (induction ps arbitrary: b)
  case Nil
  then show ?case by simp
next
  case (Cons item items)
  from Cons.prems(1) obtain arr where
    arr: "map_of b (group item) = Some arr" and
    d: "distribute items (AList.update (group item) (arr @ [token item]) b) = Inr b'"
    by (auto split: option.splits)
  show ?case
  proof (cases "p = item")
    case True
    with arr show ?thesis by simp
  next
    case False
    with Cons.prems(2) have "p \<in> set items" by simp
    from Cons.IH[OF d this] arr show ?thesis
      by (auto simp: update_conv' split: if_splits)
  qed
qed

lemma find_items_char:
  "find_items ps arr = Inr items \<Longrightarrow> map token items = arr \<and> set items \<subseteq> set ps"
proof (induction arr arbitrary: items)
  case Nil
  then show ?case by simp
next
  case (Cons t ts)
  from Cons.prems obtain p items' where
    p: "List.find (\<lambda>p. token p = t) ps = Some p" and
    i: "find_items ps ts = Inr items'" and eq: "items = p # items'"
    by (auto split: option.splits sum.splits)
  from p have "token p = t \<and> p \<in> set ps"
    by (auto simp: find_Some_iff)
  with Cons.IH[OF i] eq show ?case by simp
qed

lemma mset_insert_by: "mset (insert_by cmp x xs) = add_mset x (mset xs)"
  by (induction xs) auto

lemma mset_sort_by: "mset (sort_by cmp xs) = mset xs"
  unfolding sort_by_def by (induction xs) (auto simp: mset_insert_by)

lemma sort_buckets_char:
  "sort_buckets ps b = Inr b' \<Longrightarrow>
     (case map_of b k of
        None \<Rightarrow> map_of b' k = None
      | Some arr \<Rightarrow> \<exists>arr'. map_of b' k = Some arr' \<and> mset arr' = mset arr)"
proof (induction b arbitrary: b')
  case Nil
  then show ?case by simp
next
  case (Cons e b)
  obtain k0 arr0 where e: "e = (k0, arr0)" by (cases e)
  from Cons.prems e obtain items rest' where
    f: "find_items ps arr0 = Inr items" and
    r: "sort_buckets ps b = Inr rest'" and
    eq: "b' = (k0, map token (sort_by compare_items items)) # rest'"
    by (auto split: sum.splits)
  have "mset (map token (sort_by compare_items items)) = mset arr0"
    using find_items_char[OF f] mset_sort_by[of compare_items items]
    by (metis mset_map)
  with Cons.IH[OF r] e eq show ?case
    by (auto split: option.splits)
qed

lemma get_buckets_char:
  "get_buckets b ord = Inr gs \<Longrightarrow> list_all2 (\<lambda>k g. map_of b k = Some g) ord gs"
proof (induction ord arbitrary: gs)
  case Nil
  then show ?case by simp
next
  case (Cons k ks)
  then show ?case by (auto split: option.splits sum.splits)
qed

lemma sorted_groups_char:
  assumes "sorted_groups s opts = Some (Inr gs)"
  shows "list_all2 (\<lambda>k g. mset g = mset (filter (\<lambda>t. group_of opts t = Some (Inr k)) (splitTokens s)))
           (order_of opts) gs"
    and "\<forall>t\<in>set (splitTokens s). \<exists>k. group_of opts t = Some (Inr k) \<and> (k \<in> set (order_of opts) \<or> k = Misc)"
proof -
  let ?re = "makeVariantRegex (tw_variants (tailwind opts))"
  let ?tw = "tailwind opts"
  let ?ord = "order_of opts"
  from assms obtain ps b1 b2 where
    ps: "parse_tokens ?re ?tw 0 (splitTokens s) = Some (Inr ps)" and
    b1: "distribute ps (init_buckets ?ord) = Inr b1" and
    b2: "sort_buckets ps b1 = Inr b2" and
    gs: "get_buckets b2 ?ord = Inr gs"
    by (auto simp: sorted_groups_def order_of_def Let_def split: option.splits sum.splits)
  note pc = parse_tokens_char[OF ps]
  have filt: "map token (filter (\<lambda>p. group p = k) ps)
                = filter (\<lambda>t. group_of opts t = Some (Inr k)) (splitTokens s)" for k
  proof -
    have "filter (\<lambda>p. group p = k) ps = filter (\<lambda>p. group_of opts (token p) = Some (Inr k)) ps"
      using pc by (intro filter_cong) (auto simp: group_of_def)
    then have "map token (filter (\<lambda>p. group p = k) ps)
        = filter (\<lambda>t. group_of opts t = Some (Inr k)) (map token ps)"
      by (simp add: filter_map o_def)
    with pc show ?thesis by simp
  qed
  have one: "mset g = mset (filter (\<lambda>t. group_of opts t = Some (Inr k)) (splitTokens s))"
    if "k \<in> set ?ord" "map_of b2 k = Some g" for k g
  proof -
    from that(1) have "map_of (init_buckets ?ord) k = Some []"
      by (simp add: init_buckets_map_of)
    with distribute_char[OF b1, of k] have "map_of b1 k = Some (map token (filter (\<lambda>p. group p = k) ps))"
      by simp
    with sort_buckets_char[OF b2, of k] that(2) filt[of k] show ?thesis by auto
  qed
  from get_buckets_char[OF gs] have "list_all2 (\<lambda>k g. k \<in> set ?ord \<and> map_of b2 k = Some g) ?ord gs"
    by (simp add: list_all2_conv_all_nth)
  then show "list_all2 (\<lambda>k g. mset g = mset (filter (\<lambda>t. group_of opts t = Some (Inr k)) (splitTokens s)))
           ?ord gs"
    by (rule list_all2_mono) (use one in blast)
  show "\<forall>t\<in>set (splitTokens s). \<exists>k. group_of opts t = Some (Inr k) \<and> (k \<in> set ?ord \<or> k = Misc)"
  proof
    fix t assume "t \<in> set (splitTokens s)"
    with pc obtain p where p: "p \<in> set ps" "token p = t" by (metis image_iff list.set_map)
    from distribute_keys[OF b1 p(1)] have "group p \<in> set ?ord \<or> group p = Misc"
      by (simp add: init_buckets_map_of split: if_splits)
    moreover from pc p have "group_of opts t = Some (Inr (group p))" by (auto simp: group_of_def)
    ultimately show "\<exists>k. group_of opts t = Some (Inr k) \<and> (k \<in> set ?ord \<or> k = Misc)" by blast
  qed
qed

lemma categorize_loop_char:
  "categorize_loop re tw ts m = Some (Inr m') \<Longrightarrow>
     m' k = m k @ filter (\<lambda>t. classify_token re tw t = Some (Inr k)) ts"
proof (induction ts arbitrary: m)
  case Nil
  then show ?case by simp
next
  case (Cons t ts)
  from Cons.prems obtain g where
    g: "classify_token re tw t = Some (Inr g)" and
    l: "categorize_loop re tw ts (m(g := m g @ [t])) = Some (Inr m')"
    by (auto split: option.splits sum.splits)
  from Cons.IH[OF l] g show ?case by auto
qed

lemma fold_update_keys:
  "fst ` set (fold (\<lambda>k m. AList.update k (f k) m) ord al) = set ord \<union> fst ` set al"
  by (induction ord arbitrary: al) (auto simp: dom_update)

text \<open>
  C7 (group coverage of \<open>categorize\<close>). The keys of the object that \<open>categorize\<close> returns
  are those of the effective group order and \<open>misc\<close>, and under each key stand the tokens
  of that group in the order of the input (a \<open>filter\<close> of the token sequence).
\<close>

theorem categorize_coverage:
  assumes "categorize s opts = Some (Inr ordered)"
  shows "fst ` set ordered = set (order_of opts) \<union> {Misc} \<and>
         (\<forall>k\<in>set (order_of opts) \<union> {Misc}.
            map_of ordered k = Some (filter (\<lambda>t. group_of opts t = Some (Inr k)) (tokenize s)))"
proof -
  let ?re = "makeVariantRegex (tw_variants (tailwind opts))"
  let ?ord = "order_of opts"
  from assms obtain m where
    m: "categorize_loop ?re (tailwind opts) (splitTokens s) (\<lambda>k. []) = Some (Inr m)" and
    o: "ordered = (let al = fold (\<lambda>k al. AList.update k (m k) al) ?ord []
                   in if map_of al Misc = None then AList.update Misc (m Misc) al else al)"
    by (auto simp: categorize_def order_of_def Let_def split: option.splits sum.splits)
  have mk: "m k = filter (\<lambda>t. group_of opts t = Some (Inr k)) (tokenize s)" for k
    using categorize_loop_char[OF m, of k] by (simp add: group_of_def tokenize_def)
  have keys: "fst ` set ordered = set ?ord \<union> {Misc}"
    unfolding o by (auto simp: Let_def fold_update_keys fold_update_map_of dom_update split: if_splits)
  have vals: "map_of ordered k = Some (m k)" if "k \<in> set ?ord \<union> {Misc}" for k
    using that unfolding o by (auto simp: Let_def fold_update_map_of update_conv' split: if_splits)
  from keys vals mk show ?thesis by simp
qed

theorem categorize_coverage_witness:
  "categorize ''flex p-2 text-red-500 p-4'' (no_options\<lparr>groupOrder := Some [Spacing]\<rparr>)
     = Some (Inr [(Spacing, [''p-2'', ''p-4'']), (Misc, [])]) \<and>
   fst ` set [(Spacing, [''p-2'', ''p-4'']), (Misc, [])] =
     set (order_of (no_options\<lparr>groupOrder := Some [Spacing]\<rparr>)) \<union> {Misc} \<and>
   map_of [(Spacing, [''p-2'', ''p-4'']), (Misc, [])] Spacing =
     Some (filter (\<lambda>t. group_of (no_options\<lparr>groupOrder := Some [Spacing]\<rparr>) t = Some (Inr Spacing))
             (tokenize ''flex p-2 text-red-500 p-4'')) \<and>
   map_of [(Spacing, [''p-2'', ''p-4'']), (Misc, [])] Misc =
     Some (filter (\<lambda>t. group_of (no_options\<lparr>groupOrder := Some [Spacing]\<rparr>) t = Some (Inr Misc))
             (tokenize ''flex p-2 text-red-500 p-4''))"
proof -
  have a: "categorize ''flex p-2 text-red-500 p-4'' (no_options\<lparr>groupOrder := Some [Spacing]\<rparr>)
     = Some (Inr [(Spacing, [''p-2'', ''p-4'']), (Misc, [])])" by code_simp
  have b: "Spacing \<in> set (order_of (no_options\<lparr>groupOrder := Some [Spacing]\<rparr>)) \<union> {Misc}"
          "Misc \<in> set (order_of (no_options\<lparr>groupOrder := Some [Spacing]\<rparr>)) \<union> {Misc}"
    by (simp_all add: order_of_def)
  note c = categorize_coverage[OF a]
  show ?thesis
    by (intro conjI a c[THEN conjunct1] c[THEN conjunct2, THEN bspec, OF b(1)]
          c[THEN conjunct2, THEN bspec, OF b(2)])
qed

section \<open>Token conservation\<close>

lemma fold_scan: "scan d t = Some d' \<Longrightarrow> fold split_step t (out, cur, d) = (out, cur @ t, d')"
  by (induction t arbitrary: d cur) (auto simp: split_step_def Let_def split: if_splits)

lemma scan_append:
  "scan d (a @ b) = (case scan d a of None \<Rightarrow> None | Some d1 \<Rightarrow> scan d1 b)"
  by (induction a arbitrary: d) auto

lemma depth_step_space: "is_space c \<Longrightarrow> depth_step c d = d"
  by (auto simp: depth_step_def Let_def)

lemma split_step_inv:
  assumes "\<forall>t\<in>set out. whole_token t" and "scan 0 cur = Some d"
    and "split_step c (out, cur, d) = (out', cur', d')"
  shows "(\<forall>t\<in>set out'. whole_token t) \<and> scan 0 cur' = Some d'"
proof (cases "is_space c \<and> depth_step c d = 0")
  case True
  then have "d = 0" using depth_step_space by metis
  with True assms show ?thesis
    by (auto simp: split_step_def push_cur_def whole_token_def split: if_splits)
next
  case False
  with assms show ?thesis
    by (auto simp: split_step_def scan_append)
qed

lemma fold_split_inv:
  assumes "\<forall>t\<in>set out. whole_token t" and "scan 0 cur = Some d"
    and "fold split_step s (out, cur, d) = (out', cur', d')"
  shows "(\<forall>t\<in>set out'. whole_token t) \<and> scan 0 cur' = Some d'"
  using assms
proof (induction s arbitrary: out cur d)
  case Nil
  then show ?case by simp
next
  case (Cons c s)
  obtain o1 c1 d1 where st: "split_step c (out, cur, d) = (o1, c1, d1)"
    by (cases "split_step c (out, cur, d)") auto
  from split_step_inv[OF Cons.prems(1,2) st] Cons.prems(3) st Cons.IH[of o1 c1 d1]
  show ?case by simp
qed

lemma splitTokens_whole:
  assumes "final_depth s = 0"
  shows "\<forall>t\<in>set (splitTokens s). whole_token t"
proof -
  obtain out cur d where f: "fold split_step s ([], [], 0) = (out, cur, d)"
    by (cases "fold split_step s ([], [], 0)") auto
  with assms have d: "d = 0" by (simp add: final_depth_def)
  from fold_split_inv[OF _ _ f] have "(\<forall>t\<in>set out. whole_token t) \<and> scan 0 cur = Some d"
    by simp
  with d f show ?thesis
    by (auto simp: splitTokens_def push_cur_def whole_token_def)
qed

lemma space_is_space [simp]: "is_space CHR '' ''"
  by (simp add: is_space_def)

lemma fold_split_join:
  assumes "\<forall>t\<in>set ts. whole_token t" and "ts \<noteq> []"
  shows "fold split_step (join '' '' ts) (out, [], 0) = (out @ butlast ts, last ts, 0)"
  using assms
proof (induction ts arbitrary: out rule: induct_list012)
  case 1
  then show ?case by simp
next
  case (2 x)
  then show ?case using fold_scan[of 0 x 0 out "[]"] by (simp add: whole_token_def)
next
  case (3 x y zs)
  from "3.prems" have x: "x \<noteq> []" "scan 0 x = Some 0" by (simp_all add: whole_token_def)
  have "fold split_step (join '' '' (x # y # zs)) (out, [], 0)
      = fold split_step (join '' '' (y # zs)) (fold split_step '' '' (fold split_step x (out, [], 0)))"
    by simp
  also have "fold split_step x (out, [], 0) = (out, x, 0)"
    using fold_scan[OF x(2), of out "[]"] by simp
  also have "fold split_step '' '' (out, x, 0) = (out @ [x], [], 0)"
    using x(1) by (simp add: split_step_def depth_step_def push_cur_def)
  also have "fold split_step (join '' '' (y # zs)) (out @ [x], [], 0)
      = ((out @ [x]) @ butlast (y # zs), last (y # zs), 0)"
    using "3.IH"(2)[of "out @ [x]"] "3.prems" by simp
  finally show ?case by simp
qed

lemma splitTokens_join:
  assumes "\<forall>t\<in>set ts. whole_token t"
  shows "splitTokens (join '' '' ts) = ts"
proof (cases "ts = []")
  case True
  then show ?thesis by (simp add: splitTokens_def push_cur_def)
next
  case False
  from assms have ne: "\<forall>t\<in>set ts. t \<noteq> []" by (simp add: whole_token_def)
  from False assms have l: "last ts \<noteq> []" by (simp add: whole_token_def)
  have "filter (\<lambda>t. t \<noteq> []) (butlast ts @ [last ts]) = butlast ts @ [last ts]"
    using ne False by (simp add: filter_id_conv)
  with fold_split_join[OF assms False, of "[]"] l False show ?thesis
    by (simp add: splitTokens_def push_cur_def)
qed

lemma whole_token_hd: "whole_token t \<Longrightarrow> \<not> is_space (hd t)"
  by (cases t) (auto simp: whole_token_def depth_step_space split: if_splits)

lemma whole_token_last: "whole_token t \<Longrightarrow> \<not> is_space (last t)"
proof -
  assume w: "whole_token t"
  then obtain a c where t: "t = a @ [c]" by (metis whole_token_def rev_exhaust)
  with w obtain d1 where "scan 0 a = Some d1" "scan d1 [c] = Some 0"
    by (auto simp: whole_token_def scan_append split: option.splits)
  then have "\<not> is_space c" by (auto split: if_splits)
  with t show ?thesis by simp
qed

lemma join_hd_last:
  assumes "\<forall>t\<in>set ts. t \<noteq> []" and "ts \<noteq> []"
  shows "join sep ts \<noteq> [] \<and> hd (join sep ts) = hd (hd ts) \<and> last (join sep ts) = last (last ts)"
  using assms by (induction sep ts rule: join.induct) auto

lemma trim_id: "s \<noteq> [] \<Longrightarrow> \<not> is_space (hd s) \<Longrightarrow> \<not> is_space (last s) \<Longrightarrow> trim s = s"
proof -
  assume a: "s \<noteq> []" "\<not> is_space (hd s)" "\<not> is_space (last s)"
  then have "dropWhile is_space s = s" by (cases s) auto
  moreover from a have "dropWhile is_space (rev s) = rev s"
    by (cases "rev s") (auto simp: hd_rev)
  ultimately show ?thesis by (simp add: trim_def)
qed

lemma trim_join:
  assumes "\<forall>t\<in>set ts. whole_token t"
  shows "trim (join '' '' ts) = join '' '' ts"
proof (cases "ts = []")
  case True
  then show ?thesis by (simp add: trim_def)
next
  case False
  from assms have ne: "\<forall>t\<in>set ts. t \<noteq> []" by (simp add: whole_token_def)
  from False assms have "whole_token (hd ts)" "whole_token (last ts)" by simp_all
  with join_hd_last[OF ne False, of "'' ''"] whole_token_hd whole_token_last show ?thesis
    by (intro trim_id) auto
qed

lemma mset_concat_groups:
  "list_all2 (\<lambda>k g. mset g = F k) ord gs \<Longrightarrow> mset (concat gs) = (\<Sum>k\<leftarrow>ord. F k)"
  by (induction rule: list_all2_induct) auto

lemma count_sum_list_mset: "count (\<Sum>k\<leftarrow>ord. F k) x = (\<Sum>k\<leftarrow>ord. count (F k) x)"
  by (induction ord) auto

lemma sum_list_if_eq: "(\<Sum>k\<leftarrow>ord. if g = k then c else 0) = count_list ord g * (c::nat)"
  by (induction ord) auto

lemma mset_groups_once:
  assumes "\<forall>t\<in>set ts. \<exists>g. C t = Some (Inr g) \<and> count_list ord g = 1"
  shows "(\<Sum>k\<leftarrow>ord. mset (filter (\<lambda>t. C t = Some (Inr k)) ts)) = mset ts"
proof (rule multiset_eqI)
  fix x
  have c: "count (\<Sum>k\<leftarrow>ord. mset (filter (\<lambda>t. C t = Some (Inr k)) ts)) x
        = (\<Sum>k\<leftarrow>ord. if C x = Some (Inr k) then count (mset ts) x else 0)"
    by (simp add: count_sum_list_mset)
  show "count (\<Sum>k\<leftarrow>ord. mset (filter (\<lambda>t. C t = Some (Inr k)) ts)) x = count (mset ts) x"
  proof (cases "x \<in> set ts")
    case True
    with assms obtain g where g: "C x = Some (Inr g)" "count_list ord g = 1" by blast
    have "(\<Sum>k\<leftarrow>ord. if C x = Some (Inr k) then count (mset ts) x else 0)
        = (\<Sum>k\<leftarrow>ord. if g = k then count (mset ts) x else 0)"
      using g(1) by simp
    with c g(2) show ?thesis by (simp add: sum_list_if_eq)
  next
    case False
    then have z: "count (mset ts) x = 0" by (simp add: count_mset_0_iff)
    show ?thesis unfolding c z by simp
  qed
qed




text \<open>
  C3 (token conservation), as it holds: when \<open>formatClasses\<close> returns the flat string
  \<open>out\<close>, the scan of the input ends at bracket depth 0 (no \<open>[\<close> is left open) and the
  group of every token stands exactly once in the effective group order, then the tokens
  of \<open>out\<close> are the tokens of the input, as multisets.
\<close>

theorem token_conservation_closed:
  assumes "formatClasses s opts = Some (Inr (Flat out))"
    and "final_depth s = 0"
    and "\<forall>t\<in>set (tokenize s). \<forall>g. group_of opts t = Some (Inr g) \<longrightarrow> count_list (order_of opts) g = 1"
  shows "mset (tokenize out) = mset (tokenize s)"
proof -
  from assms(1) obtain gs where
    gs: "sorted_groups s opts = Some (Inr gs)" and
    out: "out = trim (join '' '' (concat gs))"
    by (auto simp: formatClasses_def render_def split: option.splits sum.splits if_splits)
  note ch = sorted_groups_char[OF gs]
  have once: "\<forall>t\<in>set (splitTokens s). \<exists>g. group_of opts t = Some (Inr g) \<and> count_list (order_of opts) g = 1"
    using ch(2) assms(3) by (auto simp: tokenize_def)
  have m: "mset (concat gs) = mset (splitTokens s)"
    using mset_concat_groups[OF ch(1)] mset_groups_once[OF once] by simp
  then have "set (concat gs) = set (splitTokens s)" by (metis set_mset_mset)
  with splitTokens_whole[OF assms(2)] have w: "\<forall>t\<in>set (concat gs). whole_token t" by simp
  have "tokenize out = concat gs"
    unfolding out tokenize_def using trim_join[OF w] splitTokens_join[OF w] by simp
  with m show ?thesis by (simp add: tokenize_def)
qed

theorem token_conservation_closed_witness:
  "formatClasses ''text-red-500 p-4 bg-[a b] flex'' no_options = Some (Inr (Flat ''flex p-4 text-red-500 bg-[a b]'')) \<and>
   final_depth ''text-red-500 p-4 bg-[a b] flex'' = 0 \<and>
   mset (tokenize ''flex p-4 text-red-500 bg-[a b]'') = mset (tokenize ''text-red-500 p-4 bg-[a b] flex'')"
proof -
  let ?s = "''text-red-500 p-4 bg-[a b] flex''"
  have a: "formatClasses ?s no_options = Some (Inr (Flat ''flex p-4 text-red-500 bg-[a b]''))"
    by code_simp
  have b: "final_depth ?s = 0" by code_simp
  have t: "tokenize ?s = [''text-red-500'', ''p-4'', ''bg-[a b]'', ''flex'']" by code_simp
  have g: "group_of no_options ''text-red-500'' = Some (Inr Colors)"
          "group_of no_options ''p-4'' = Some (Inr Spacing)"
          "group_of no_options ''bg-[a b]'' = Some (Inr Colors)"
          "group_of no_options ''flex'' = Some (Inr Layout)"
    by code_simp+
  have o: "order_of no_options = DEFAULT_ORDER" by (simp add: order_of_def no_options_def)
  have c: "\<forall>t\<in>set (tokenize ?s). \<forall>g. group_of no_options t = Some (Inr g) \<longrightarrow>
              count_list (order_of no_options) g = 1"
    unfolding t o using g by (simp add: DEFAULT_ORDER_def)
  from token_conservation_closed[OF a b c] a b show ?thesis by simp
qed

text \<open>
  C3 as stated fails with the default options: in \<open>rounded flex[\<close> both groups are in the
  group order; the output \<open>flex[ rounded\<close> puts the token with the open bracket first,
  and read again it is a single token.
\<close>

theorem token_conservation_counterexample:
  "formatClasses ''rounded flex['' no_options = Some (Inr (Flat ''flex[ rounded'')) \<and>
   tokenize ''rounded flex['' = [''rounded'', ''flex[''] \<and>
   group_of no_options ''rounded'' = Some (Inr Borders) \<and>
   group_of no_options ''flex['' = Some (Inr Layout) \<and>
   Borders \<in> set (order_of no_options) \<and> Layout \<in> set (order_of no_options) \<and>
   tokenize ''flex[ rounded'' = [''flex[ rounded''] \<and>
   mset (tokenize ''flex[ rounded'') \<noteq> mset (tokenize ''rounded flex['')"
proof -
  have a: "formatClasses ''rounded flex['' no_options = Some (Inr (Flat ''flex[ rounded''))"
    by code_simp
  have b: "tokenize ''rounded flex['' = [''rounded'', ''flex['']" by code_simp
  have c: "tokenize ''flex[ rounded'' = [''flex[ rounded'']" by code_simp
  have g: "group_of no_options ''rounded'' = Some (Inr Borders)"
          "group_of no_options ''flex['' = Some (Inr Layout)"
    by code_simp+
  have o: "Borders \<in> set (order_of no_options)" "Layout \<in> set (order_of no_options)"
    by (simp_all add: order_of_def no_options_def DEFAULT_ORDER_def)
  have "mset [''flex[ rounded''] \<noteq> mset [''rounded'', ''flex['']" by simp
  with a b c g o show ?thesis by simp
qed

section \<open>Formatting the output again\<close>










lemma first_index_less: "x \<in> set xs \<Longrightarrow> first_index xs x < length xs"
  by (induction xs) auto






























end
